theory Spec2Isabelle
  imports Main "HOL-Library.Word" "HOL-Library.List_Lexorder" "HOL-Library.Product_Lexorder"
    "HOL-Library.Multiset"
begin

unbundle bit_operations_syntax

section \<open>The values handed to the extension\<close>

text \<open>
  The extension \<^verbatim>\<open>pseudo_random_native.cpp\<close> receives a Ruby \<^verbatim>\<open>VALUE\<close> and
  dispatches on \<^verbatim>\<open>TYPE(obj)\<close>. The model has one constructor for each branch of that
  \<^verbatim>\<open>switch\<close>. Everything the code asks the interpreter about an object is recorded in
  the object:
  \<^item> an Integer (\<^verbatim>\<open>T_FIXNUM\<close> or \<^verbatim>\<open>T_BIGNUM\<close>, one branch) is its mathematical value;
  \<^item> a Float is the 64-bit pattern that \<^verbatim>\<open>memcpy\<close> reads out of the \<^verbatim>\<open>double\<close>;
  \<^item> a String or a Symbol is the byte sequence between \<^verbatim>\<open>RSTRING_PTR\<close> and
    \<^verbatim>\<open>RSTRING_LEN\<close>;
  \<^item> a Hash is the list of its entries in iteration order, which is the order of
    \<^verbatim>\<open>Hash#keys\<close>; an entry is the key, the outcome of the call
    \<^verbatim>\<open>rb_funcall(key, rb_intern("to_s"), 0)\<close>, which the interpreter dispatches on the
    key object, and the value that \<^verbatim>\<open>rb_hash_aref\<close> answers for that key object. Two
    entries may hold keys that look alike (two objects of one class with one rendering):
    they are two key objects all the same, and each has its own value;
  \<^item> a Time (\<^verbatim>\<open>T_DATA\<close> that is a kind of \<^verbatim>\<open>rb_cTime\<close>) is the pair of Integers that
    \<^verbatim>\<open>to_i\<close> and \<^verbatim>\<open>nsec\<close> answer;
  \<^item> any other object (the \<^verbatim>\<open>default\<close> branch, reached also by \<^verbatim>\<open>T_DATA\<close> that is
    not a Time) is the outcome of \<^verbatim>\<open>name\<close> on its class and of \<^verbatim>\<open>to_s\<close> on itself.
  A method called through \<^verbatim>\<open>rb_funcall\<close> either answers or raises a Ruby exception.
  An answer of \<^verbatim>\<open>to_s\<close> or \<^verbatim>\<open>name\<close> is taken to be a String, since the code reads it
  with \<^verbatim>\<open>RSTRING_PTR\<close> without a check; the class of an object is taken to have a name.
\<close>

type_synonym byte = "8 word"
type_synonym u32 = "32 word"
type_synonym u64 = "64 word"

datatype rb_exception =
    RangeError
  | RuntimeError string
  | HostException string

text \<open>
  A Ruby exception leaves the extension by \<^verbatim>\<open>longjmp\<close>; a C++ exception is what
  \<^verbatim>\<open>catch (const std::exception& e)\<close> in \<^verbatim>\<open>seed_to_seed_int\<close> sees, with its
  \<^verbatim>\<open>what()\<close>.
\<close>

datatype failure = Ruby rb_exception | Cpp string

datatype 'a outcome = Returns 'a | Raises rb_exception

datatype rb_value =
    T_NIL
  | T_TRUE
  | T_FALSE
  | T_INTEGER int
  | T_FLOAT u64
  | T_STRING "byte list"
  | T_SYMBOL "byte list"
  | T_ARRAY "rb_value list"
  | T_HASH "(rb_value \<times> byte list outcome \<times> rb_value) list"
  | T_TIME int int
  | T_OTHER "byte list outcome" "byte list outcome"

type_synonym hash_entries = "(rb_value \<times> byte list outcome \<times> rb_value) list"

section \<open>Constants\<close>

definition FNV_OFFSET :: u64 where
  "FNV_OFFSET = 0xcbf29ce484222325"

definition FNV_PRIME :: u64 where
  "FNV_PRIME = 0x100000001b3"

definition MASK64 :: u64 where
  "MASK64 = 0xffffffffffffffff"

section \<open>ZigZag and varint\<close>

text \<open>
  \<^verbatim>\<open>zigzag(int64_t num)\<close>: the argument is a 64-bit word read as signed. The negation
  \<^verbatim>\<open>-num\<close> of the least \<^verbatim>\<open>int64_t\<close> is taken to wrap around, as two's complement
  hardware does.
\<close>

definition zigzag :: "u64 \<Rightarrow> u64" where
  "zigzag num = (if 0 \<le>s num then push_bit 1 num else push_bit 1 (- num) - 1)"

lemma drop_bit_7_less:
  assumes "drop_bit 7 (num :: u64) \<noteq> 0"
  shows "unat (drop_bit 7 num) < unat num"
proof -
  have "unat num \<noteq> 0"
    using assms by (auto simp: unat_eq_0)
  then show ?thesis
    by (simp add: drop_bit_eq_div unat_div)
qed

text \<open>
  \<^verbatim>\<open>encode_varint(uint64_t num)\<close> appends to the member \<^verbatim>\<open>bytes\<close>; the buffer is passed
  in and returned. The \<^verbatim>\<open>do ... while (true)\<close> loop is the recursion.
\<close>

function encode_varint :: "u64 \<Rightarrow> byte list \<Rightarrow> byte list" where
  "encode_varint num bytes =
     (let byte = (ucast (num AND 0x7f) :: byte); num' = drop_bit 7 num
      in if num' = 0 then bytes @ [byte]
         else encode_varint num' (bytes @ [byte OR 0x80]))"
  by pat_completeness auto
termination
  by (relation "measure (\<lambda>(num, bytes). unat num)") (auto simp: drop_bit_7_less)

declare encode_varint.simps [simp del]

section \<open>Conversions of the interpreter\<close>

text \<open>
  \<^verbatim>\<open>NUM2LL\<close> and \<^verbatim>\<open>NUM2ULL\<close> are the interpreter's checked conversions of an Integer
  (\<^verbatim>\<open>rb_num2ll\<close>, \<^verbatim>\<open>rb_num2ull\<close>): an Integer outside the range of \<^verbatim>\<open>long long\<close>
  raises \<^verbatim>\<open>RangeError\<close>; \<^verbatim>\<open>NUM2ULL\<close> accepts what fits \<^verbatim>\<open>unsigned long long\<close> and
  also a negative Integer that fits \<^verbatim>\<open>long long\<close>, which it reinterprets as unsigned.
\<close>

definition NUM2LL :: "int \<Rightarrow> failure + u64" where
  "NUM2LL n =
     (if - (2 ^ 63) \<le> n \<and> n < 2 ^ 63 then Inr (word_of_int n) else Inl (Ruby RangeError))"

definition NUM2ULL :: "int \<Rightarrow> failure + u64" where
  "NUM2ULL n =
     (if - (2 ^ 63) \<le> n \<and> n < 2 ^ 64 then Inr (word_of_int n) else Inl (Ruby RangeError))"

section \<open>Canonical serialization\<close>

text \<open>
  The loop \<^verbatim>\<open>for (int i = 7; i >= 0; i--) bytes.push_back((bits >> (i * 8)) & 0xff)\<close>
  of the \<^verbatim>\<open>T_FLOAT\<close> branch.
\<close>

definition float_bytes :: "u64 \<Rightarrow> byte list" where
  "float_bytes bits =
     map (\<lambda>i. ucast (drop_bit (i * 8) bits AND 0xff)) [7, 6, 5, 4, 3, 2, 1, 0]"

text \<open>
  The length as a varint, then the bytes one by one: the body shared by the
  \<^verbatim>\<open>T_STRING\<close>, \<^verbatim>\<open>T_SYMBOL\<close> and \<^verbatim>\<open>default\<close> branches. The length is a \<^verbatim>\<open>long\<close> or a
  \<^verbatim>\<open>size_t\<close> converted to \<^verbatim>\<open>uint64_t\<close>.
\<close>

definition push_string :: "byte list \<Rightarrow> byte list \<Rightarrow> byte list" where
  "push_string str bytes = encode_varint (of_nat (length str)) bytes @ str"

text \<open>
  A key is a \<^verbatim>\<open>VALUE\<close>, the object itself. The model names a key object by its
  position in the array \<^verbatim>\<open>keys\<close>. \<^verbatim>\<open>rb_hash_aref(obj, original_key)\<close> answers the value
  the hash holds for that key object, which is the value of the entry at that position;
  \<^verbatim>\<open>nil\<close> when the hash has no such key.
\<close>

fun rb_hash_aref :: "hash_entries \<Rightarrow> nat \<Rightarrow> rb_value" where
  "rb_hash_aref [] original_key = T_NIL"
| "rb_hash_aref ((k, r, v) # es) 0 = v"
| "rb_hash_aref ((k, r, v) # es) (Suc original_key) = rb_hash_aref es original_key"

lemma size_rb_hash_aref:
  "size (rb_hash_aref es i) \<le> size_list (size_prod size (size_prod (\<lambda>x. 0) size)) es"
  by (induction es i rule: rb_hash_aref.induct) auto

text \<open>
  The first loop of the \<^verbatim>\<open>T_HASH\<close> branch: for each index \<open>i\<close> of \<^verbatim>\<open>keys\<close> in order, call
  \<^verbatim>\<open>to_s\<close> on the key and push the pair of the rendering and the key. The first call
  that raises ends the serialization.
\<close>

fun collect_keys ::
  "hash_entries \<Rightarrow> nat \<Rightarrow> (byte list \<times> nat) list \<Rightarrow> failure + (byte list \<times> nat) list"
where
  "collect_keys [] i sorted_keys = Inr sorted_keys"
| "collect_keys ((key, Raises e, v) # es) i sorted_keys = Inl (Ruby e)"
| "collect_keys ((key, Returns key_string, v) # es) i sorted_keys =
     collect_keys es (Suc i) (sorted_keys @ [(key_string, i)])"

text \<open>
  \<^verbatim>\<open>std::sort\<close> with the comparator \<^verbatim>\<open>a.first < b.first\<close>. On \<^verbatim>\<open>std::string\<close> the
  operator \<^verbatim>\<open><\<close> is the lexicographic order of the bytes read as unsigned, a proper
  prefix first: the order of \<^typ>\<open>byte list\<close>. The result holds the pairs of the input
  in ascending order of the rendering. The comparator never looks at the key, so pairs
  with the same rendering are equivalent for it, and the order \<^verbatim>\<open>std::sort\<close> leaves
  them in is not fixed by the language: it is the choice of the library's algorithm
  (an insertion sort keeps them as they were, a quicksort on a longer range does not).
  The model takes that choice as a parameter \<open>tie\<close>, a rank for each pair of the input:
  pairs with one rendering come out by ascending rank, and in input order where the
  ranks are equal too. Whatever \<open>tie\<close> is, the result is a permutation of the input in
  ascending order of the rendering, and every such permutation is the result for some
  \<open>tie\<close> (both are proved below), so what holds for every \<open>tie\<close> holds for every
  \<^verbatim>\<open>std::sort\<close>.
\<close>

type_synonym tie_order = "(byte list \<times> nat) list \<Rightarrow> byte list \<times> nat \<Rightarrow> nat"

definition std_sort :: "tie_order \<Rightarrow> (byte list \<times> nat) list \<Rightarrow> (byte list \<times> nat) list" where
  "std_sort tie sorted_keys = sort_key (\<lambda>p. (fst p, tie sorted_keys p)) sorted_keys"

text \<open>The choice of an insertion sort: equivalent pairs stay in input order.\<close>

definition in_order :: tie_order where
  "in_order sorted_keys p = 0"

text \<open>
  \<^verbatim>\<open>canonical_serialize(VALUE obj)\<close>, with the buffer passed in and returned. The two
  helper functions are its loops: \<open>serialize_elements\<close> is the loop of the
  \<^verbatim>\<open>T_ARRAY\<close> branch and \<open>serialize_pairs\<close> the last loop of the \<^verbatim>\<open>T_HASH\<close> branch,
  which serializes a fresh String made of the rendering and then the value fetched
  with the original key. A call that raises leaves \<^verbatim>\<open>canonical_serialize\<close> at once
  and the buffer is never read afterwards, so a failing branch returns the failure
  alone, without the bytes pushed before it.
\<close>

function canonical_serialize :: "tie_order \<Rightarrow> rb_value \<Rightarrow> byte list \<Rightarrow> failure + byte list"
  and serialize_elements :: "tie_order \<Rightarrow> rb_value list \<Rightarrow> byte list \<Rightarrow> failure + byte list"
  and serialize_pairs ::
    "tie_order \<Rightarrow> hash_entries \<Rightarrow> (byte list \<times> nat) list \<Rightarrow> byte list \<Rightarrow> failure + byte list"
where
  "canonical_serialize tie T_NIL bytes = Inr (bytes @ [0x6e])"
| "canonical_serialize tie T_TRUE bytes = Inr (bytes @ [0x74])"
| "canonical_serialize tie T_FALSE bytes = Inr (bytes @ [0x66])"
| "canonical_serialize tie (T_INTEGER n) bytes =
     (case NUM2LL n of
        Inl e \<Rightarrow> Inl e
      | Inr num \<Rightarrow> Inr (encode_varint (zigzag num) (bytes @ [0x69])))"
| "canonical_serialize tie (T_FLOAT bits) bytes = Inr (bytes @ [0x64] @ float_bytes bits)"
| "canonical_serialize tie (T_STRING str) bytes = Inr (push_string str (bytes @ [0x73]))"
| "canonical_serialize tie (T_SYMBOL str) bytes = Inr (push_string str (bytes @ [0x79]))"
| "canonical_serialize tie (T_ARRAY xs) bytes =
     serialize_elements tie xs (encode_varint (of_nat (length xs)) (bytes @ [0x61]))"
| "canonical_serialize tie (T_HASH es) bytes =
     (case collect_keys es 0 [] of
        Inl e \<Rightarrow> Inl e
      | Inr sorted_keys \<Rightarrow>
          serialize_pairs tie es (std_sort tie sorted_keys)
            (encode_varint (of_nat (length es)) (bytes @ [0x68])))"
| "canonical_serialize tie (T_TIME to_i nsec) bytes =
     (case NUM2ULL to_i of
        Inl e \<Rightarrow> Inl e
      | Inr secs \<Rightarrow>
          (case NUM2ULL nsec of
             Inl e \<Rightarrow> Inl e
           | Inr ns \<Rightarrow> Inr (encode_varint ns (encode_varint secs (bytes @ [0x54])))))"
| "canonical_serialize tie (T_OTHER class_name obj_str) bytes =
     (case class_name of
        Raises e \<Rightarrow> Inl (Ruby e)
      | Returns cn \<Rightarrow>
          (case obj_str of
             Raises e \<Rightarrow> Inl (Ruby e)
           | Returns s \<Rightarrow> Inr (push_string (cn @ [0x3a] @ s) (bytes @ [0x6f]))))"
| "serialize_elements tie [] bytes = Inr bytes"
| "serialize_elements tie (x # xs) bytes =
     (case canonical_serialize tie x bytes of
        Inl e \<Rightarrow> Inl e
      | Inr bytes' \<Rightarrow> serialize_elements tie xs bytes')"
| "serialize_pairs tie es [] bytes = Inr bytes"
| "serialize_pairs tie es ((key_string, original_key) # ps) bytes =
     (case canonical_serialize tie (T_STRING key_string) bytes of
        Inl e \<Rightarrow> Inl e
      | Inr bytes1 \<Rightarrow>
          (case canonical_serialize tie (rb_hash_aref es original_key) bytes1 of
             Inl e \<Rightarrow> Inl e
           | Inr bytes2 \<Rightarrow> serialize_pairs tie es ps bytes2))"
  by pat_completeness auto

termination
proof (relation "measures [
     (\<lambda>x. case x of
        Inl (t, v, b) \<Rightarrow> size v
      | Inr (Inl (t, xs, b)) \<Rightarrow> size_list size xs
      | Inr (Inr (t, es, ps, b)) \<Rightarrow> size_list (size_prod size (size_prod (\<lambda>x. 0) size)) es),
     (\<lambda>x. case x of
        Inl (t, v, b) \<Rightarrow> 0
      | Inr (Inl (t, xs, b)) \<Rightarrow> 0
      | Inr (Inr (t, es, ps, b)) \<Rightarrow> Suc (length ps))]", goal_cases)
  case (7 tie es key_string original_key ps bytes bytes1)
  show ?case
    using size_rb_hash_aref [of es original_key] by auto
qed auto

section \<open>The seed\<close>

text \<open>The loop \<^verbatim>\<open>for (uint8_t byte : bytes) { h ^= byte; h = (h * FNV_PRIME) & MASK64; }\<close>.\<close>

fun fnv1a_loop :: "byte list \<Rightarrow> u64 \<Rightarrow> u64" where
  "fnv1a_loop [] h = h"
| "fnv1a_loop (byte # bytes) h = fnv1a_loop bytes (((h XOR ucast byte) * FNV_PRIME) AND MASK64)"

text \<open>The last two lines of \<^verbatim>\<open>to_seed_int\<close>: the fold to 32 bits and the 31-bit mask.\<close>

definition fold_seed :: "u64 \<Rightarrow> u32" where
  "fold_seed h = (let s = (ucast (h XOR drop_bit 32 h) :: u32) in s AND 0x7fffffff)"

text \<open>\<^verbatim>\<open>SeedCalculator::to_seed_int\<close>: the buffer is cleared, filled and hashed.\<close>

definition to_seed_int :: "tie_order \<Rightarrow> rb_value \<Rightarrow> failure + u32" where
  "to_seed_int tie obj =
     (case canonical_serialize tie obj [] of
        Inl e \<Rightarrow> Inl e
      | Inr bytes \<Rightarrow> Inr (fold_seed (fnv1a_loop bytes FNV_OFFSET)))"



section \<open>Evaluation of the encoder\<close>

lemma encode_varint_small:
  "drop_bit 7 num = 0 \<Longrightarrow> encode_varint num bytes = bytes @ [ucast (num AND 0x7f)]"
  by (simp add: encode_varint.simps [of num] Let_def)

lemma encode_varint_more:
  "drop_bit 7 num \<noteq> 0 \<Longrightarrow>
   encode_varint num bytes =
     encode_varint (drop_bit 7 num) (bytes @ [ucast (num AND 0x7f) OR 0x80])"
  by (simp add: encode_varint.simps [of num] Let_def)

lemma encode_varint_append: "encode_varint num bytes = bytes @ encode_varint num []"
proof (induction "unat num" arbitrary: num bytes rule: less_induct)
  case less
  show ?case
  proof (cases "drop_bit 7 num = 0")
    case True
    then show ?thesis
      by (simp add: encode_varint_small)
  next
    case False
    note lt = drop_bit_7_less [OF False]
    show ?thesis
      using False less [OF lt, of "bytes @ [ucast (num AND 0x7f) OR 0x80]"]
        less [OF lt, of "[ucast (num AND 0x7f) OR 0x80]"]
      by (simp add: encode_varint_more)
  qed
qed

section \<open>Fixtures\<close>

text \<open>
  Claim C7. The encoder produces the fixture byte sequences: \<open>nil\<close> gives \<open>[0x6e]\<close>,
  \<open>true\<close> gives \<open>[0x74]\<close>, the integer 5 gives \<open>[0x69, 0x0a]\<close>, the integer -1 gives
  \<open>[0x69, 0x01]\<close>, the empty array gives \<open>[0x61, 0x00]\<close> and the empty hash gives
  \<open>[0x68, 0x00]\<close>.
\<close>

theorem canonical_serialize_fixtures:
  "canonical_serialize tie T_NIL [] = Inr [0x6e]
   \<and> canonical_serialize tie T_TRUE [] = Inr [0x74]
   \<and> canonical_serialize tie (T_INTEGER 5) [] = Inr [0x69, 0x0a]
   \<and> canonical_serialize tie (T_INTEGER (- 1)) [] = Inr [0x69, 0x01]
   \<and> canonical_serialize tie (T_ARRAY []) [] = Inr [0x61, 0x00]
   \<and> canonical_serialize tie (T_HASH []) [] = Inr [0x68, 0x00]"
  by (simp add: NUM2LL_def zigzag_def word_sle_eq std_sort_def encode_varint_small)

section \<open>The varint is self-delimiting\<close>

lemma low7_bit:
  "bit (ucast ((num :: u64) AND 0x7f) :: byte) n \<longleftrightarrow> n < 7 \<and> bit num n"
proof -
  have m: "(0x7f :: u64) = mask 7"
    by (simp add: mask_eq_exp_minus_1)
  show ?thesis
    unfolding m by (auto simp: bit_simps)
qed

lemma bit_0x80: "bit (0x80 :: byte) n \<longleftrightarrow> n = 7"
proof -
  have m: "(0x80 :: byte) = 2 ^ 7"
    by simp
  show ?thesis
    by (simp only: m bit_exp_iff) auto
qed

lemma continuation_bit: "bit ((b :: byte) OR 0x80) n \<longleftrightarrow> bit b n \<or> n = 7"
  by (simp only: bit_or_iff bit_0x80)

lemma low7_eq:
  assumes "(ucast ((a :: u64) AND 0x7f) :: byte) = ucast ((b :: u64) AND 0x7f)"
    and "n < 7"
  shows "bit a n = bit b n"
proof -
  have "bit (ucast (a AND 0x7f) :: byte) n = bit (ucast (b AND 0x7f) :: byte) n"
    by (simp only: assms(1))
  then have "(n < 7 \<and> bit a n) = (n < 7 \<and> bit b n)"
    by (simp only: low7_bit)
  then show ?thesis
    using assms(2) by simp
qed

lemma low7_continued_eq:
  assumes "(ucast ((a :: u64) AND 0x7f) :: byte) OR 0x80 = ucast ((b :: u64) AND 0x7f) OR 0x80"
  shows "(ucast (a AND 0x7f) :: byte) = ucast (b AND 0x7f)"
proof (rule bit_eqI)
  fix n
  have "bit ((ucast (a AND 0x7f) :: byte) OR 0x80) n
      = bit ((ucast (b AND 0x7f) :: byte) OR 0x80) n"
    by (simp only: assms)
  then have "((n < 7 \<and> bit a n) \<or> n = 7) = ((n < 7 \<and> bit b n) \<or> n = 7)"
    by (simp only: continuation_bit low7_bit)
  then have "(n < 7 \<and> bit a n) = (n < 7 \<and> bit b n)"
    by auto
  then show "bit (ucast (a AND 0x7f) :: byte) n = bit (ucast (b AND 0x7f) :: byte) n"
    by (simp only: low7_bit)
qed

lemma last_byte_not_continued:
  "(ucast ((a :: u64) AND 0x7f) :: byte) \<noteq> ucast ((b :: u64) AND 0x7f) OR 0x80"
proof
  assume "(ucast (a AND 0x7f) :: byte) = ucast (b AND 0x7f) OR 0x80"
  then have "bit (ucast (a AND 0x7f) :: byte) 7 = bit ((ucast (b AND 0x7f) :: byte) OR 0x80) 7"
    by (simp only:)
  then show False
    by (simp only: continuation_bit low7_bit) simp
qed

lemma word_from_groups:
  assumes "drop_bit 7 (a :: u64) = drop_bit 7 (b :: u64)"
    and "(ucast (a AND 0x7f) :: byte) = ucast (b AND 0x7f)"
  shows "a = b"
proof (rule bit_eqI)
  fix n
  show "bit a n = bit b n"
  proof (cases "n < 7")
    case True
    then show ?thesis
      using assms(2) by (rule low7_eq [rotated])
  next
    case False
    have "bit (drop_bit 7 a) (n - 7) = bit (drop_bit 7 b) (n - 7)"
      using assms(1) by simp
    then show ?thesis
      using False by (simp add: bit_drop_bit_eq)
  qed
qed

lemma encode_varint_delimited:
  "encode_varint a [] @ xs = encode_varint b [] @ ys \<Longrightarrow> a = b \<and> xs = ys"
proof (induction "unat a" arbitrary: a b rule: less_induct)
  case less
  show ?case
  proof (cases "drop_bit 7 a = 0")
    case a0: True
    show ?thesis
    proof (cases "drop_bit 7 b = 0")
      case b0: True
      from less.prems a0 b0
      have "(ucast (a AND 0x7f) :: byte) = ucast (b AND 0x7f)" and "xs = ys"
        by (simp_all add: encode_varint_small)
      then show ?thesis
        using a0 b0 word_from_groups [of a b] by simp
    next
      case b1: False
      from less.prems a0 b1
      have "(ucast (a AND 0x7f) :: byte) = ucast (b AND 0x7f) OR 0x80"
        by (simp add: encode_varint_small encode_varint_more encode_varint_append [of _ "[_]"])
      then show ?thesis
        using last_byte_not_continued by blast
    qed
  next
    case a1: False
    show ?thesis
    proof (cases "drop_bit 7 b = 0")
      case b0: True
      from less.prems a1 b0
      have "(ucast (b AND 0x7f) :: byte) = ucast (a AND 0x7f) OR 0x80"
        by (simp add: encode_varint_small encode_varint_more encode_varint_append [of _ "[_]"])
      then show ?thesis
        using last_byte_not_continued by blast
    next
      case b1: False
      from less.prems a1 b1
      have h: "(ucast (a AND 0x7f) :: byte) OR 0x80 = ucast (b AND 0x7f) OR 0x80"
        and t: "encode_varint (drop_bit 7 a) [] @ xs = encode_varint (drop_bit 7 b) [] @ ys"
        by (simp_all add: encode_varint_more encode_varint_append [of _ "[_]"])
      from less.hyps [OF drop_bit_7_less [OF a1] t]
      have "drop_bit 7 a = drop_bit 7 b" and "xs = ys"
        by simp_all
      then show ?thesis
        using word_from_groups [OF _ low7_continued_eq [OF h]] by simp
    qed
  qed
qed

lemma encode_varint_shape:
  "encode_varint num [] \<noteq> [] \<and> \<not> bit (last (encode_varint num [])) 7
   \<and> (\<forall>b \<in> set (butlast (encode_varint num [])). bit b 7)"
proof (induction "unat num" arbitrary: num rule: less_induct)
  case less
  show ?case
  proof (cases "drop_bit 7 num = 0")
    case True
    then show ?thesis
      by (simp add: encode_varint_small low7_bit)
  next
    case False
    from less [OF drop_bit_7_less [OF False]] False show ?thesis
      by (simp add: encode_varint_more encode_varint_append [of _ "[_]"] butlast_append
          continuation_bit)
  qed
qed

text \<open>
  Claim C10. \<open>encode_varint\<close> appends at least one byte for every 64-bit input, and
  zero is the single byte \<open>0x00\<close>. Of the appended bytes the last one has its high bit
  clear and every earlier one has it set, so the varint ends at the first byte whose
  high bit is clear. Distinct inputs give distinct byte sequences, and a varint followed
  by anything can be read back in one way only: consecutive varints are delimited.
\<close>

theorem encode_varint_self_delimiting:
  "(\<exists>vs. vs \<noteq> [] \<and> encode_varint num bytes = bytes @ vs
      \<and> \<not> bit (last vs) 7 \<and> (\<forall>b \<in> set (butlast vs). bit b 7))
   \<and> encode_varint 0 bytes = bytes @ [0x00]
   \<and> (\<forall>m. encode_varint m bytes = encode_varint num bytes \<longrightarrow> m = num)
   \<and> (\<forall>m xs ys. encode_varint m bytes @ xs = encode_varint num bytes @ ys
        \<longrightarrow> m = num \<and> xs = ys)"
proof (intro conjI allI impI)
  show "\<exists>vs. vs \<noteq> [] \<and> encode_varint num bytes = bytes @ vs
      \<and> \<not> bit (last vs) 7 \<and> (\<forall>b \<in> set (butlast vs). bit b 7)"
    using encode_varint_shape [of num] encode_varint_append [of num bytes] by blast
  show "encode_varint 0 bytes = bytes @ [0x00]"
    by (simp add: encode_varint_small)
next
  fix m
  assume "encode_varint m bytes = encode_varint num bytes"
  then have "encode_varint m [] @ [] = encode_varint num [] @ []"
    using encode_varint_append [of m bytes] encode_varint_append [of num bytes] by simp
  then show "m = num"
    using encode_varint_delimited by blast
next
  fix m xs ys
  assume "encode_varint m bytes @ xs = encode_varint num bytes @ ys"
  then have e: "encode_varint m [] @ xs = encode_varint num [] @ ys"
    using encode_varint_append [of m bytes] encode_varint_append [of num bytes] by simp
  from encode_varint_delimited [OF e] show "m = num" and "xs = ys"
    by simp_all
qed

theorem encode_varint_self_delimiting_witness:
  "encode_varint 300 [0x69] = [0x69, 0xac, 0x02]
   \<and> bit (0xac :: byte) 7 \<and> \<not> bit (0x02 :: byte) 7
   \<and> encode_varint 0 [0x69] = [0x69, 0x00]
   \<and> encode_varint 300 [0x69] @ [0x05] \<noteq> encode_varint 44 [0x69] @ [0x02, 0x05]"
proof -
  have e: "encode_varint 300 [0x69] = [0x69, 0xac, 0x02]"
    by (simp add: encode_varint_more encode_varint_small)
  have b: "bit (0xac :: byte) 7" "\<not> bit (0x02 :: byte) 7"
    by (simp_all add: bit_iff_odd_drop_bit)
  note delimited =
    encode_varint_self_delimiting [of 44 "[0x69]", THEN conjunct2, THEN conjunct2,
      THEN conjunct2, rule_format]
  have d: "encode_varint 300 [0x69] @ [0x05] \<noteq> encode_varint 44 [0x69] @ [0x02, 0x05]"
  proof
    assume "encode_varint 300 [0x69] @ [0x05] = encode_varint 44 [0x69] @ [0x02, 0x05]"
    from delimited [OF this] have "(300 :: u64) = 44"
      by (rule conjunct1)
    then show False
      by simp
  qed
  have z: "encode_varint 0 [0x69] = [0x69, 0x00]"
    by (simp add: encode_varint_small)
  from e b z d show ?thesis
    by (intro conjI)
qed

section \<open>The hash and the fold\<close>

text \<open>
  The hash as the specification words it, on natural numbers with the reduction modulo
  \<open>2 ^ 64\<close> written out: the state starts at the offset basis, each byte in order gives
  \<open>state = (state XOR byte) * prime mod 2 ^ 64\<close>, and the result is
  \<open>h XOR (h >> 32)\<close> truncated to 32 bits with the top bit cleared. These two
  definitions follow the specification; \<open>fnv1a_loop\<close> and \<open>fold_seed\<close> follow the code.
\<close>

fun spec_fnv1a :: "nat list \<Rightarrow> nat \<Rightarrow> nat" where
  "spec_fnv1a [] state = state"
| "spec_fnv1a (byte # bytes) state =
     spec_fnv1a bytes (((state XOR byte) * 0x100000001b3) mod 2 ^ 64)"

definition spec_seed :: "nat list \<Rightarrow> nat" where
  "spec_seed bytes =
     (let h = spec_fnv1a bytes 0xcbf29ce484222325
      in ((h XOR (h div 2 ^ 32)) mod 2 ^ 32) AND 0x7fffffff)"

lemma and_MASK64: "(x :: u64) AND MASK64 = x"
proof -
  have m: "MASK64 = - 1"
    by (simp add: MASK64_def)
  show ?thesis
    by (simp only: m word_and_max)
qed

lemma unat_ucast_byte: "unat (ucast (byte :: byte) :: u64) = unat byte"
proof -
  have "unat byte < 2 ^ 8"
    using unsigned_less [of byte] by simp
  then have "unat byte < 2 ^ 64"
    by simp
  then show ?thesis
    by (simp add: unsigned_ucast_eq take_bit_nat_eq_self)
qed

lemma unat_fnv1a_step:
  "unat (((h XOR ucast (byte :: byte)) * FNV_PRIME) AND MASK64)
     = ((unat h XOR unat byte) * 0x100000001b3) mod 2 ^ 64"
proof -
  have "unat ((h XOR ucast byte) * FNV_PRIME)
      = (unat (h XOR ucast byte) * unat FNV_PRIME) mod 2 ^ 64"
    by (simp add: unat_word_ariths)
  also have "unat (h XOR ucast byte) = unat h XOR unat byte"
    by (simp add: unsigned_xor_eq unat_ucast_byte)
  also have "unat FNV_PRIME = 0x100000001b3"
    by (simp add: FNV_PRIME_def)
  finally show ?thesis
    by (simp only: and_MASK64)
qed

lemma unat_fnv1a_loop: "unat (fnv1a_loop bytes h) = spec_fnv1a (map unat bytes) (unat h)"
  by (induction bytes arbitrary: h)
    (simp_all only: fnv1a_loop.simps spec_fnv1a.simps list.map unat_fnv1a_step)

lemma unat_fold_seed:
  "unat (fold_seed h) = ((unat h XOR (unat h div 2 ^ 32)) mod 2 ^ 32) AND 0x7fffffff"
proof -
  have "unat (fold_seed h)
      = unat (ucast (h XOR drop_bit 32 h) :: u32) AND unat (0x7fffffff :: u32)"
    by (simp add: fold_seed_def Let_def unsigned_and_eq)
  also have "unat (ucast (h XOR drop_bit 32 h) :: u32) = unat (h XOR drop_bit 32 h) mod 2 ^ 32"
    by (simp add: unsigned_ucast_eq take_bit_eq_mod)
  also have "unat (h XOR drop_bit 32 h) = unat h XOR (unat h div 2 ^ 32)"
    by (simp add: unsigned_xor_eq unat_drop_bit_eq drop_bit_eq_div unat_div)
  finally show ?thesis
    by simp
qed

text \<open>
  Claim C6. For every value, the seed is the specified fold of the FNV-1a digest of
  the canonical encoding: whenever the encoder yields a buffer, \<open>to_seed_int\<close> yields
  the number \<open>spec_seed\<close> computes from the bytes of that buffer, and when the encoder
  fails, \<open>to_seed_int\<close> fails in the same way.
\<close>

theorem to_seed_int_is_spec_seed:
  "map_sum id unat (to_seed_int tie obj)
     = map_sum id (\<lambda>bytes. spec_seed (map unat bytes)) (canonical_serialize tie obj [])"
proof (cases "canonical_serialize tie obj []")
  case (Inl e)
  then show ?thesis
    by (simp add: to_seed_int_def)
next
  case (Inr bytes)
  have "unat FNV_OFFSET = 0xcbf29ce484222325"
    by (simp add: FNV_OFFSET_def)
  then have "unat (fold_seed (fnv1a_loop bytes FNV_OFFSET)) = spec_seed (map unat bytes)"
    by (simp only: unat_fold_seed unat_fnv1a_loop spec_seed_def Let_def)
  with Inr show ?thesis
    by (simp add: to_seed_int_def)
qed

section \<open>The range of the seed\<close>

lemma fold_seed_le: "unat (fold_seed h) \<le> 2147483647"
proof -
  have "fold_seed h \<le> 0x7fffffff"
    by (simp add: fold_seed_def Let_def word_and_le1)
  then have "unat (fold_seed h) \<le> unat (0x7fffffff :: u32)"
    by (simp only: word_le_nat_alt)
  then show ?thesis
    by simp
qed

text \<open>
  The values on which no call into the interpreter raises: every Integer fits
  \<^verbatim>\<open>long long\<close>, both Integers of every Time are accepted by \<^verbatim>\<open>NUM2ULL\<close>, and every
  \<^verbatim>\<open>to_s\<close> and \<^verbatim>\<open>name\<close> the encoder calls answers.
\<close>

fun answered :: "'a outcome \<Rightarrow> bool" where
  "answered (Returns x) = True"
| "answered (Raises e) = False"

fun encodable :: "rb_value \<Rightarrow> bool" where
  "encodable (T_INTEGER n) = (- (2 ^ 63) \<le> n \<and> n < 2 ^ 63)"
| "encodable (T_ARRAY xs) = (\<forall>x \<in> set xs. encodable x)"
| "encodable (T_HASH es) = (\<forall>(k, r, v) \<in> set es. answered r \<and> encodable v)"
| "encodable (T_TIME to_i nsec) =
     (- (2 ^ 63) \<le> to_i \<and> to_i < 2 ^ 64 \<and> - (2 ^ 63) \<le> nsec \<and> nsec < 2 ^ 64)"
| "encodable (T_OTHER class_name obj_str) = (answered class_name \<and> answered obj_str)"
| "encodable v = True"

lemma collect_keys_answered:
  "\<forall>(k, r, v) \<in> set es. answered r \<Longrightarrow> \<exists>ks. collect_keys es i acc = Inr ks"
  by (induction es i acc rule: collect_keys.induct) auto

lemma encodable_rb_hash_aref:
  "\<forall>(k, r, v) \<in> set es. encodable v \<Longrightarrow> encodable (rb_hash_aref es key)"
  by (induction es key rule: rb_hash_aref.induct) auto

lemma encodable_serialized:
  "encodable obj \<Longrightarrow> \<exists>bs. canonical_serialize tie obj bytes = Inr bs"
  "\<forall>x \<in> set xs. encodable x \<Longrightarrow> \<exists>bs. serialize_elements tie xs bytes = Inr bs"
  "\<forall>(k, r, v) \<in> set es. encodable v \<Longrightarrow> \<exists>bs. serialize_pairs tie es ps bytes = Inr bs"
proof (induction tie obj bytes and tie xs bytes and tie es ps bytes
    rule: canonical_serialize_serialize_elements_serialize_pairs.induct)
  case (4 tie n bytes)
  then show ?case
    by (simp add: NUM2LL_def)
next
  case (9 tie es bytes)
  then have a: "\<forall>(k, r, v) \<in> set es. answered r"
    and b: "\<forall>(k, r, v) \<in> set es. encodable v"
    by auto
  from collect_keys_answered [OF a] obtain ks where ks: "collect_keys es 0 [] = Inr ks"
    by blast
  from "9.IH" [OF ks b] ks show ?case
    by simp
next
  case (10 tie to_i nsec bytes)
  then show ?case
    by (simp add: NUM2ULL_def)
next
  case (11 tie class_name obj_str bytes)
  then show ?case
    by (cases class_name; cases obj_str) simp_all
next
  case (13 tie x xs bytes)
  then obtain b1 where b1: "canonical_serialize tie x bytes = Inr b1"
    by auto
  from 13 b1 show ?case
    by simp
next
  case (15 tie es key_string original_key ps bytes)
  obtain b1 where b1: "canonical_serialize tie (T_STRING key_string) bytes = Inr b1"
    by simp
  from "15.IH"(2) [OF b1 encodable_rb_hash_aref [OF "15.prems"]]
  obtain b2 where b2: "canonical_serialize tie (rb_hash_aref es original_key) b1 = Inr b2"
    by blast
  from "15.IH"(3) [OF b1 b2 "15.prems"] b1 b2 show ?case
    by simp
qed simp_all

text \<open>
  Claim C1. Every seed \<open>to_seed_int\<close> returns lies between 0 and \<open>2 ^ 31 - 1\<close>, and it
  returns a seed for every value on which no call into the interpreter raises. (The
  value is a finite tree by its type.)
\<close>

theorem to_seed_int_range:
  "(\<forall>s. to_seed_int tie obj = Inr s \<longrightarrow> unat s \<le> 2 ^ 31 - 1)
   \<and> (encodable obj \<longrightarrow> (\<exists>s. to_seed_int tie obj = Inr s \<and> unat s \<le> 2 ^ 31 - 1))"
proof (intro conjI allI impI)
  fix s
  assume "to_seed_int tie obj = Inr s"
  then show "unat s \<le> 2 ^ 31 - 1"
    by (auto simp: to_seed_int_def fold_seed_le split: sum.splits)
next
  assume "encodable obj"
  then obtain bs where "canonical_serialize tie obj [] = Inr bs"
    using encodable_serialized(1) by blast
  then show "\<exists>s. to_seed_int tie obj = Inr s \<and> unat s \<le> 2 ^ 31 - 1"
    by (simp add: to_seed_int_def fold_seed_le)
qed

theorem to_seed_int_range_witness:
  "encodable (T_ARRAY [T_INTEGER 5, T_NIL])
   \<and> to_seed_int in_order (T_ARRAY [T_INTEGER 5, T_NIL]) = Inr 1697896939
   \<and> unat (1697896939 :: u32) \<le> 2 ^ 31 - 1"
proof -
  have e: "encodable (T_ARRAY [T_INTEGER 5, T_NIL])"
    by simp
  have v: "to_seed_int in_order (T_ARRAY [T_INTEGER 5, T_NIL]) = Inr 1697896939"
    by code_simp
  from to_seed_int_range [of in_order "T_ARRAY [T_INTEGER 5, T_NIL]", THEN conjunct1, rule_format, OF v]
  have "unat (1697896939 :: u32) \<le> 2 ^ 31 - 1" .
  with e v show ?thesis
    by (intro conjI)
qed

section \<open>Floats\<close>

lemma low8_bit: "bit (ucast ((x :: u64) AND 0xff) :: byte) n \<longleftrightarrow> n < 8 \<and> bit x n"
proof -
  have m: "(0xff :: u64) = mask 8"
    by (simp add: mask_eq_exp_minus_1)
  show ?thesis
    unfolding m by (auto simp: bit_simps)
qed

lemma ucast_low8: "(ucast ((x :: u64) AND 0xff) :: byte) = ucast x"
proof (rule bit_eqI)
  fix n
  have "bit (ucast (x AND 0xff) :: byte) n = (n < 8 \<and> bit x n)"
    by (rule low8_bit)
  also have "\<dots> = bit (ucast x :: byte) n"
    by (auto simp: bit_ucast_iff)
  finally show "bit (ucast (x AND 0xff) :: byte) n = bit (ucast x :: byte) n" .
qed

lemma float_bytes_explicit:
  "float_bytes bits =
     [ucast (drop_bit 56 bits), ucast (drop_bit 48 bits), ucast (drop_bit 40 bits),
      ucast (drop_bit 32 bits), ucast (drop_bit 24 bits), ucast (drop_bit 16 bits),
      ucast (drop_bit 8 bits), ucast bits]"
  by (simp add: float_bytes_def ucast_low8)

lemma float_bytes_nth:
  assumes "i < 8"
  shows "float_bytes bits ! (7 - i) = ucast (drop_bit (i * 8) bits)"
proof -
  from assms have "i = 0 \<or> i = 1 \<or> i = 2 \<or> i = 3 \<or> i = 4 \<or> i = 5 \<or> i = 6 \<or> i = 7"
    by arith
  then show ?thesis
    by (elim disjE) (simp_all add: float_bytes_explicit)
qed

lemma float_bytes_bit:
  assumes "n < 64"
  shows "bit (float_bytes bits ! (7 - n div 8)) (n mod 8) = bit bits n"
proof -
  from assms have i: "n div 8 < 8"
    by simp
  have "bit (ucast (drop_bit (n div 8 * 8) bits) :: byte) (n mod 8)
      = bit bits (n div 8 * 8 + n mod 8)"
    by (simp add: bit_ucast_iff bit_drop_bit_eq)
  then show ?thesis
    by (simp add: float_bytes_nth [OF i])
qed

lemma float_bytes_inj:
  assumes "float_bytes a = float_bytes b"
  shows "a = b"
proof (rule bit_eqI)
  fix n
  show "bit a n = bit b n"
  proof (cases "n < 64")
    case True
    from float_bytes_bit [OF True, of a] float_bytes_bit [OF True, of b] assms show ?thesis
      by simp
  next
    case False
    then have "\<not> bit a n" and "\<not> bit b n"
      by (auto dest: bit_imp_le_length)
    then show ?thesis
      by simp
  qed
qed

text \<open>
  Claim C8. A Float is encoded as the tag \<open>d\<close> (0x64) followed by the eight bytes of
  its bit pattern, the most significant byte first; two Floats with distinct bit
  patterns have distinct encodings; and the seeds of \<open>0.0\<close> (pattern 0) and of \<open>-0.0\<close>
  (pattern \<open>0x8000000000000000\<close>) differ.
\<close>

theorem float_encoding:
  "canonical_serialize tie (T_FLOAT bits) bytes =
     Inr (bytes @ [0x64, ucast (drop_bit 56 bits), ucast (drop_bit 48 bits),
       ucast (drop_bit 40 bits), ucast (drop_bit 32 bits), ucast (drop_bit 24 bits),
       ucast (drop_bit 16 bits), ucast (drop_bit 8 bits), ucast bits])
   \<and> (\<forall>bits'. canonical_serialize tie (T_FLOAT bits') bytes = canonical_serialize tie (T_FLOAT bits) bytes
        \<longrightarrow> bits' = bits)
   \<and> to_seed_int tie (T_FLOAT 0) \<noteq> to_seed_int tie (T_FLOAT 0x8000000000000000)"
proof (intro conjI allI impI)
  show "canonical_serialize tie (T_FLOAT bits) bytes =
     Inr (bytes @ [0x64, ucast (drop_bit 56 bits), ucast (drop_bit 48 bits),
       ucast (drop_bit 40 bits), ucast (drop_bit 32 bits), ucast (drop_bit 24 bits),
       ucast (drop_bit 16 bits), ucast (drop_bit 8 bits), ucast bits])"
    by (simp add: float_bytes_explicit)
next
  fix bits'
  assume "canonical_serialize tie (T_FLOAT bits') bytes = canonical_serialize tie (T_FLOAT bits) bytes"
  then have "float_bytes bits' = float_bytes bits"
    by simp
  then show "bits' = bits"
    by (rule float_bytes_inj)
next
  have a: "to_seed_int tie (T_FLOAT 0) = Inr 1613155237"
    by code_simp
  have b: "to_seed_int tie (T_FLOAT 0x8000000000000000) = Inr 1579251880"
    by code_simp
  show "to_seed_int tie (T_FLOAT 0) \<noteq> to_seed_int tie (T_FLOAT 0x8000000000000000)"
    unfolding a b by simp
qed

theorem float_encoding_witness:
  "canonical_serialize in_order (T_FLOAT 0x3ff0000000000000) [] = Inr [0x64, 0x3f, 0xf0, 0, 0, 0, 0, 0, 0]
   \<and> canonical_serialize in_order (T_FLOAT 0x8000000000000000) []
     \<noteq> canonical_serialize in_order (T_FLOAT 0x3ff0000000000000) []"
proof -
  note t = float_encoding [of in_order "0x3ff0000000000000" "[]"]
  have e: "canonical_serialize in_order (T_FLOAT 0x3ff0000000000000) []
      = Inr [0x64, 0x3f, 0xf0, 0, 0, 0, 0, 0, 0]"
    using t [THEN conjunct1] by simp
  have d: "canonical_serialize in_order (T_FLOAT 0x8000000000000000) []
      \<noteq> canonical_serialize in_order (T_FLOAT 0x3ff0000000000000) []"
  proof
    assume "canonical_serialize in_order (T_FLOAT 0x8000000000000000) []
      = canonical_serialize in_order (T_FLOAT 0x3ff0000000000000) []"
    from t [THEN conjunct2, THEN conjunct1, rule_format, OF this]
    show False
      by simp
  qed
  from e d show ?thesis
    by (intro conjI)
qed

section \<open>Integers and times go through the checked conversions\<close>

lemma sint_word_of_int_64:
  assumes "- (2 ^ 63) \<le> n" "n < 2 ^ 63"
  shows "sint (word_of_int n :: u64) = n"
  using assms by (simp add: sint_sbintrunc' signed_take_bit_int_eq_self)

lemma unat_word_of_int_64:
  assumes "0 \<le> m" "m < 2 ^ 64"
  shows "unat (word_of_int m :: u64) = nat m"
  using assms by (simp add: unat_eq_nat_uint uint_word_of_int)

lemma zigzag_value:
  assumes "- (2 ^ 63) \<le> n" "n < 2 ^ 63"
  shows "unat (zigzag (word_of_int n)) = nat (if 0 \<le> n then 2 * n else 2 * (- n) - 1)"
proof (cases "0 \<le> n")
  case True
  have "zigzag (word_of_int n) = word_of_int (2 * n)"
    using True
    by (simp add: zigzag_def word_sle_eq sint_word_of_int_64 [OF assms] push_bit_eq_mult)
  then show ?thesis
    using True assms unat_word_of_int_64 [of "2 * n"] by simp
next
  case False
  have "zigzag (word_of_int n) = word_of_int (2 * (- n) - 1)"
    using False
    by (simp add: zigzag_def word_sle_eq sint_word_of_int_64 [OF assms] push_bit_eq_mult)
  then show ?thesis
    using False assms unat_word_of_int_64 [of "2 * (- n) - 1"] by simp
qed

lemma unat_reinterpreted:
  assumes "- (2 ^ 63) \<le> n" "n < 2 ^ 64"
  shows "unat (word_of_int n :: u64) = nat (if 0 \<le> n then n else 2 ^ 64 + n)"
proof (cases "0 \<le> n")
  case True
  then show ?thesis
    using assms unat_word_of_int_64 [of n] by simp
next
  case False
  have "unat (word_of_int n :: u64) = nat (n mod 2 ^ 64)"
    by (simp add: unat_eq_nat_uint uint_word_of_int)
  also have "n mod 2 ^ 64 = (n + 2 ^ 64) mod 2 ^ 64"
    by simp
  also have "\<dots> = n + 2 ^ 64"
    using False assms by (intro mod_pos_pos_trivial) simp_all
  finally show ?thesis
    using False by (simp add: add.commute)
qed

text \<open>
  Claim C4, as the code has it. An Integer that fits 64 bits signed is encoded as the
  tag \<open>i\<close> (0x69) followed by the varint of its zigzag image, which is \<open>2 * n\<close> for a
  non-negative \<open>n\<close> and \<open>2 * |n| - 1\<close> for a negative one. An Integer outside that range
  is not truncated: the conversion raises \<open>RangeError\<close> and nothing is encoded.
\<close>

theorem integer_encoding:
  "(- (2 ^ 63) \<le> n \<and> n < 2 ^ 63 \<longrightarrow>
      canonical_serialize tie (T_INTEGER n) bytes
        = Inr (encode_varint (zigzag (word_of_int n)) (bytes @ [0x69]))
      \<and> unat (zigzag (word_of_int n)) = nat (if 0 \<le> n then 2 * n else 2 * (- n) - 1))
   \<and> (n < - (2 ^ 63) \<or> 2 ^ 63 \<le> n \<longrightarrow>
      canonical_serialize tie (T_INTEGER n) bytes = Inl (Ruby RangeError))"
proof (intro conjI impI)
  assume r: "- (2 ^ 63) \<le> n \<and> n < 2 ^ 63"
  then show "canonical_serialize tie (T_INTEGER n) bytes
      = Inr (encode_varint (zigzag (word_of_int n)) (bytes @ [0x69]))"
    by (simp add: NUM2LL_def)
  from r show "unat (zigzag (word_of_int n)) = nat (if 0 \<le> n then 2 * n else 2 * (- n) - 1)"
    by (intro zigzag_value) simp_all
next
  assume "n < - (2 ^ 63) \<or> 2 ^ 63 \<le> n"
  then show "canonical_serialize tie (T_INTEGER n) bytes = Inl (Ruby RangeError)"
    by (auto simp: NUM2LL_def)
qed

theorem integer_encoding_witness:
  "canonical_serialize in_order (T_INTEGER (- 3)) [] = Inr [0x69, 0x05]
   \<and> unat (zigzag (word_of_int (- 3))) = 5
   \<and> canonical_serialize in_order (T_INTEGER (2 ^ 63)) [] = Inl (Ruby RangeError)"
proof -
  have z: "zigzag (- 3) = 5"
    by (simp add: zigzag_def word_sle_eq)
  have v: "encode_varint 5 [0x69] = [0x69, 0x05]"
    by (simp add: encode_varint_small)
  have "- (2 ^ 63) \<le> (- 3 :: int) \<and> (- 3 :: int) < 2 ^ 63"
    by simp
  note t = integer_encoding [of "- 3" in_order "[]", THEN conjunct1, rule_format, OF this]
  have a: "canonical_serialize in_order (T_INTEGER (- 3)) [] = Inr [0x69, 0x05]"
    unfolding t [THEN conjunct1] by (simp add: z v)
  have b: "unat (zigzag (word_of_int (- 3))) = 5"
    using t [THEN conjunct2] by simp
  have "(2 ^ 63 :: int) < - (2 ^ 63) \<or> (2 ^ 63 :: int) \<le> 2 ^ 63"
    by simp
  from integer_encoding [of "2 ^ 63" in_order "[]", THEN conjunct2, rule_format, OF this]
  have c: "canonical_serialize in_order (T_INTEGER (2 ^ 63)) [] = Inl (Ruby RangeError)" .
  from a b c show ?thesis
    by (intro conjI)
qed

text \<open>
  The claim as the specification states it fails at \<open>2 ^ 64\<close>: a reinterpretation in 64
  bits would encode it as zero, and the code raises instead.
\<close>

theorem integer_truncation_counterexample:
  "canonical_serialize in_order (T_INTEGER 18446744073709551616) [] = Inl (Ruby RangeError)"
  by (simp add: NUM2LL_def)

text \<open>
  Claim C9, as the code has it. A Time whose seconds and nanoseconds are accepted by
  \<^verbatim>\<open>NUM2ULL\<close> is encoded as the tag \<open>T\<close> (0x54), the varint of the seconds and the
  varint of the nanoseconds, each read as unsigned: a negative component \<open>n\<close> counts as
  \<open>2 ^ 64 + n\<close>. A component below \<open>- 2 ^ 63\<close> or from \<open>2 ^ 64\<close> on is not truncated:
  the conversion raises \<open>RangeError\<close> and nothing is encoded.
\<close>

theorem time_encoding:
  "(- (2 ^ 63) \<le> to_i \<and> to_i < 2 ^ 64 \<and> - (2 ^ 63) \<le> nsec \<and> nsec < 2 ^ 64 \<longrightarrow>
      (\<exists>secs ns.
         canonical_serialize tie (T_TIME to_i nsec) bytes
           = Inr (encode_varint ns (encode_varint secs (bytes @ [0x54])))
         \<and> unat secs = nat (if 0 \<le> to_i then to_i else 2 ^ 64 + to_i)
         \<and> unat ns = nat (if 0 \<le> nsec then nsec else 2 ^ 64 + nsec)))
   \<and> (to_i < - (2 ^ 63) \<or> 2 ^ 64 \<le> to_i \<or> nsec < - (2 ^ 63) \<or> 2 ^ 64 \<le> nsec \<longrightarrow>
      canonical_serialize tie (T_TIME to_i nsec) bytes = Inl (Ruby RangeError))"
proof (intro conjI impI)
  assume r: "- (2 ^ 63) \<le> to_i \<and> to_i < 2 ^ 64 \<and> - (2 ^ 63) \<le> nsec \<and> nsec < 2 ^ 64"
  then have "canonical_serialize tie (T_TIME to_i nsec) bytes
      = Inr (encode_varint (word_of_int nsec) (encode_varint (word_of_int to_i) (bytes @ [0x54])))"
    by (simp add: NUM2ULL_def)
  moreover from r have "unat (word_of_int to_i :: u64)
      = nat (if 0 \<le> to_i then to_i else 2 ^ 64 + to_i)"
    by (intro unat_reinterpreted) simp_all
  moreover from r have "unat (word_of_int nsec :: u64)
      = nat (if 0 \<le> nsec then nsec else 2 ^ 64 + nsec)"
    by (intro unat_reinterpreted) simp_all
  ultimately show "\<exists>secs ns.
         canonical_serialize tie (T_TIME to_i nsec) bytes
           = Inr (encode_varint ns (encode_varint secs (bytes @ [0x54])))
         \<and> unat secs = nat (if 0 \<le> to_i then to_i else 2 ^ 64 + to_i)
         \<and> unat ns = nat (if 0 \<le> nsec then nsec else 2 ^ 64 + nsec)"
    by blast
next
  assume "to_i < - (2 ^ 63) \<or> 2 ^ 64 \<le> to_i \<or> nsec < - (2 ^ 63) \<or> 2 ^ 64 \<le> nsec"
  then show "canonical_serialize tie (T_TIME to_i nsec) bytes = Inl (Ruby RangeError)"
    by (auto simp: NUM2ULL_def)
qed

theorem time_encoding_witness:
  "canonical_serialize in_order (T_TIME (- 1) 5) []
     = Inr [0x54, 0xff, 0xff, 0xff, 0xff, 0xff, 0xff, 0xff, 0xff, 0xff, 0x01, 0x05]
   \<and> canonical_serialize in_order (T_TIME (- (2 ^ 63) - 1) 5) [] = Inl (Ruby RangeError)"
proof -
  have a: "canonical_serialize in_order (T_TIME (- 1) 5) []
     = Inr [0x54, 0xff, 0xff, 0xff, 0xff, 0xff, 0xff, 0xff, 0xff, 0xff, 0x01, 0x05]"
    by code_simp
  have "(- (2 ^ 63) - 1 :: int) < - (2 ^ 63) \<or> (2 ^ 64 :: int) \<le> - (2 ^ 63) - 1
      \<or> (5 :: int) < - (2 ^ 63) \<or> (2 ^ 64 :: int) \<le> 5"
    by simp
  from time_encoding [of "- (2 ^ 63) - 1" 5 in_order "[]", THEN conjunct2, rule_format, OF this]
  have b: "canonical_serialize in_order (T_TIME (- (2 ^ 63) - 1) 5) [] = Inl (Ruby RangeError)" .
  from a b show ?thesis
    by (intro conjI)
qed

text \<open>
  The claim as the specification states it fails for a Time \<open>2 ^ 64\<close> seconds after
  the epoch: a truncation would encode the seconds as zero, and the code raises instead.
\<close>

theorem time_truncation_counterexample:
  "canonical_serialize in_order (T_TIME 18446744073709551616 0) [] = Inl (Ruby RangeError)"
  by (simp add: NUM2ULL_def)

section \<open>Hashes\<close>

lemma encode_varint_prepend: "encode_varint num (a @ b) = a @ encode_varint num b"
  using encode_varint_append [of num "a @ b"] encode_varint_append [of num b] by simp

lemma push_string_prepend: "push_string str (a @ b) = a @ push_string str b"
  by (simp add: push_string_def encode_varint_prepend)

text \<open>
  The encoder only appends: what it adds to a buffer does not depend on what the buffer
  holds already, and neither does a failure.
\<close>

lemma serialize_prepend:
  fixes bytes :: "byte list"
  shows "\<forall>a b. canonical_serialize tie obj (a @ b) = map_sum id ((@) a) (canonical_serialize tie obj b)"
    and "\<forall>a b. serialize_elements tie xs (a @ b) = map_sum id ((@) a) (serialize_elements tie xs b)"
    and "\<forall>a b. serialize_pairs tie es ps (a @ b) = map_sum id ((@) a) (serialize_pairs tie es ps b)"
proof (induction tie obj bytes and tie xs bytes and tie es ps bytes
    rule: canonical_serialize_serialize_elements_serialize_pairs.induct)
  case (4 tie n bytes)
  show ?case
    by (auto simp: encode_varint_prepend split: sum.splits)
next
  case (6 tie str bytes)
  show ?case
    by (simp add: push_string_prepend)
next
  case (7 tie str bytes)
  show ?case
    by (simp add: push_string_prepend)
next
  case (8 tie xs bytes)
  then show ?case
    by (simp add: encode_varint_prepend)
next
  case (9 tie es bytes)
  show ?case
  proof (cases "collect_keys es 0 []")
    case (Inl e)
    then show ?thesis
      by simp
  next
    case (Inr ks)
    from 9 [OF Inr] Inr show ?thesis
      by (simp add: encode_varint_prepend)
  qed
next
  case (10 tie to_i nsec bytes)
  show ?case
    by (auto simp: encode_varint_prepend split: sum.splits)
next
  case (11 tie class_name obj_str bytes)
  show ?case
    by (auto simp: push_string_prepend split: outcome.splits)
next
  case (13 tie x xs bytes)
  note x = 13(1) [rule_format]
  show ?case
  proof (cases "canonical_serialize tie x []")
    case (Inl e)
    have "canonical_serialize tie x c = Inl e" for c
      using x [of c "[]"] Inl by simp
    then show ?thesis
      by simp
  next
    case (Inr c)
    have c: "canonical_serialize tie x d = Inr (d @ c)" for d
      using x [of d "[]"] Inr by simp
    note xs = 13(2) [OF c, rule_format]
    show ?thesis
      by (simp add: c xs id_def)
  qed
next
  case (15 tie es key_string original_key ps bytes)
  let ?v = "rb_hash_aref es original_key"
  have s: "canonical_serialize tie (T_STRING key_string) d
      = Inr (d @ push_string key_string [0x73])" for d
    using push_string_prepend [of key_string d "[0x73]"] by simp
  note v = 15(2) [OF s, rule_format]
  show ?case
  proof (cases "canonical_serialize tie ?v []")
    case (Inl e)
    have "canonical_serialize tie ?v c = Inl e" for c
      using v [of c "[]"] Inl by simp
    then show ?thesis
      by (simp del: canonical_serialize.simps add: s)
  next
    case (Inr c)
    have c: "canonical_serialize tie ?v d = Inr (d @ c)" for d
      using v [of d "[]"] Inr by simp
    note ps = 15(3) [OF s c, rule_format]
    show ?thesis
      by (simp del: canonical_serialize.simps add: s c ps id_def)
  qed
qed simp_all

text \<open>
  Whatever the choice among equivalent pairs is, \<open>std_sort\<close> returns a permutation of
  its input in ascending order of the rendering. Where the renderings are pairwise
  distinct the choice plays no part.
\<close>

lemma mset_std_sort: "mset (std_sort tie xs) = mset xs"
  by (simp add: std_sort_def)

lemma sorted_map_fst:
  "sorted (map (\<lambda>p. (g p, h p)) ys) \<Longrightarrow> sorted (map g ys)"
  by (induction ys) (auto simp: less_eq_prod_def)

lemma sorted_std_sort: "sorted (map fst (std_sort tie xs))"
proof -
  have "sorted (map (\<lambda>p. (fst p, tie xs p)) (std_sort tie xs))"
    by (simp add: std_sort_def)
  then show ?thesis
    by (rule sorted_map_fst)
qed

lemma std_sort_distinct:
  assumes "distinct (map fst xs)"
  shows "std_sort tie xs = sort_key fst xs"
proof -
  have "inj_on fst (set xs)"
    using assms by (simp add: distinct_map)
  then have "sort_key fst xs = std_sort tie xs"
    by (intro sort_key_inj_key_eq) (simp_all add: mset_std_sort sorted_std_sort)
  then show ?thesis
    by simp
qed

text \<open>
  Conversely every permutation of the input in ascending order of the rendering is what
  \<open>std_sort\<close> returns for some choice: rank each pair by its place in that permutation.
  (The pairs of an input are pairwise distinct, since the key positions are.)
\<close>

fun position :: "'a list \<Rightarrow> 'a \<Rightarrow> nat" where
  "position [] p = 0"
| "position (q # ys) p = (if q = p then 0 else Suc (position ys p))"

lemma position_nth: "distinct ys \<Longrightarrow> i < length ys \<Longrightarrow> position ys (ys ! i) = i"
proof (induction ys arbitrary: i)
  case Nil
  then show ?case by simp
next
  case (Cons q ys)
  then show ?case by (cases i) auto
qed

lemma std_sort_complete:
  assumes "mset ys = mset xs" and "sorted (map fst ys)" and "distinct xs"
  shows "std_sort (\<lambda>_. position ys) xs = ys"
proof -
  have d: "distinct ys"
    using assms(1,3) by (metis mset_eq_imp_distinct_iff)
  have "inj_on (\<lambda>p. (fst p, position ys p)) (set ys)"
  proof (rule inj_onI)
    fix p q
    assume "p \<in> set ys" "q \<in> set ys" "(fst p, position ys p) = (fst q, position ys q)"
    then obtain i j where "i < length ys" "j < length ys" "p = ys ! i" "q = ys ! j" "position ys p = position ys q"
      by (auto simp: in_set_conv_nth)
    then show "p = q" using position_nth [OF d] by metis
  qed
  then have inj: "inj_on (\<lambda>p. (fst p, position ys p)) (set xs)"
    using assms(1) by (metis mset_eq_setD)
  have "sorted_wrt (\<lambda>p q. (fst p, position ys p) \<le> (fst q, position ys q)) ys"
    unfolding sorted_wrt_iff_nth_less
  proof (intro allI impI)
    fix i j
    assume "i < j" "j < length ys"
    then have "fst (ys ! i) \<le> fst (ys ! j)"
      using assms(2) by (simp add: sorted_iff_nth_mono)
    moreover have "position ys (ys ! i) \<le> position ys (ys ! j)"
      using \<open>i < j\<close> \<open>j < length ys\<close> position_nth [OF d] by simp
    ultimately show "(fst (ys ! i), position ys (ys ! i)) \<le> (fst (ys ! j), position ys (ys ! j))"
      by (auto simp: less_eq_prod_def)
  qed
  then have "sorted (map (\<lambda>p. (fst p, position ys p)) ys)"
    by (simp add: sorted_map)
  with inj assms(1) have "sort_key (\<lambda>p. (fst p, position ys p)) xs = ys"
    by (intro sort_key_inj_key_eq) simp_all
  then show ?thesis
    by (simp add: std_sort_def)
qed

text \<open>
  The rendering the interpreter answered for a key, the pairs the first loop of the
  \<^verbatim>\<open>T_HASH\<close> branch collects when every \<^verbatim>\<open>to_s\<close> answers (each rendering with the
  position of its key), and the bytes the encoder appends for a value (read only where
  the encoder succeeds).
\<close>

fun rendering :: "byte list outcome \<Rightarrow> byte list" where
  "rendering (Returns s) = s"
| "rendering (Raises e) = []"

definition rendered_keys :: "hash_entries \<Rightarrow> (byte list \<times> nat) list" where
  "rendered_keys es = zip (map (\<lambda>(k, r, v). rendering r) es) [0..<length es]"

definition encoding :: "tie_order \<Rightarrow> rb_value \<Rightarrow> byte list" where
  "encoding tie v = (case canonical_serialize tie v [] of Inr bs \<Rightarrow> bs | Inl e \<Rightarrow> [])"

lemma collect_keys_zip:
  "\<forall>(k, r, v) \<in> set es. answered r \<Longrightarrow>
   collect_keys es i acc
     = Inr (acc @ zip (map (\<lambda>(k, r, v). rendering r) es) [i..<i + length es])"
proof (induction es i acc rule: collect_keys.induct)
  case (3 key key_string v es i sorted_keys)
  then show ?case
    by (simp add: upt_conv_Cons del: upt_Suc)
qed simp_all

lemma collect_keys_rendered:
  "\<forall>(k, r, v) \<in> set es. answered r \<Longrightarrow> collect_keys es 0 [] = Inr (rendered_keys es)"
  using collect_keys_zip [of es 0 "[]"] by (simp add: rendered_keys_def)

lemma distinct_rendered_keys: "distinct (rendered_keys es)"
  by (simp add: rendered_keys_def distinct_zipI2)

lemma std_sort_any_order:
  assumes "mset ys = mset (rendered_keys es)" and "sorted (map fst ys)"
  shows "\<exists>tie. std_sort tie (rendered_keys es) = ys"
  using std_sort_complete [OF assms distinct_rendered_keys] by blast

lemma rb_hash_aref_nth: "i < length es \<Longrightarrow> rb_hash_aref es i = snd (snd (es ! i))"
  by (induction es i rule: rb_hash_aref.induct) simp_all

lemma encodable_encoding:
  assumes "encodable v"
  shows "canonical_serialize tie v bytes = Inr (bytes @ encoding tie v)"
proof -
  from encodable_serialized(1) [OF assms, of tie "[]"]
  obtain bs where bs: "canonical_serialize tie v [] = Inr bs"
    by blast
  from serialize_prepend(1) [rule_format, of tie v bytes "[]"] bs show ?thesis
    by (simp add: encoding_def)
qed

lemma serialize_pairs_concat:
  assumes "\<forall>(k, r, v) \<in> set es. encodable v"
  shows "serialize_pairs tie es ps bytes =
     Inr (bytes @ concat (map (\<lambda>(key_string, original_key).
       0x73 # encode_varint (of_nat (length key_string)) [] @ key_string
         @ encoding tie (rb_hash_aref es original_key)) ps))"
proof (induction ps arbitrary: bytes)
  case Nil
  show ?case
    by simp
next
  case (Cons p ps)
  obtain s k where p: "p = (s, k)"
    by (cases p)
  have v: "canonical_serialize tie (rb_hash_aref es k) b
      = Inr (b @ encoding tie (rb_hash_aref es k))" for b
    by (rule encodable_encoding) (rule encodable_rb_hash_aref [OF assms])
  show ?case
    unfolding p
    by (simp del: canonical_serialize.simps
        add: canonical_serialize.simps(6) push_string_def v Cons.IH encode_varint_prepend
          encode_varint_append [of _ "[_]"])
qed

lemma hash_encoding:
  assumes "encodable (T_HASH es)"
  shows "canonical_serialize tie (T_HASH es) bytes =
      Inr (bytes @ 0x68 # encode_varint (of_nat (length es)) []
        @ concat (map (\<lambda>(key_string, original_key).
            0x73 # encode_varint (of_nat (length key_string)) [] @ key_string
              @ encoding tie (rb_hash_aref es original_key))
          (std_sort tie (rendered_keys es))))"
proof -
  from assms have a: "\<forall>(k, r, v) \<in> set es. answered r"
    and v: "\<forall>(k, r, v) \<in> set es. encodable v"
    by auto
  show ?thesis
    using collect_keys_rendered [OF a]
    by (simp add: serialize_pairs_concat [OF v] encode_varint_prepend
        encode_varint_append [of _ "[_]"])
qed

text \<open>The encoder reads the renderings and the values of a hash, never the keys.\<close>

definition without_keys :: "hash_entries \<Rightarrow> hash_entries" where
  "without_keys es = map (\<lambda>(k, r, v). (T_NIL, r, v)) es"

lemma collect_keys_without_keys: "collect_keys (without_keys es) i acc = collect_keys es i acc"
  by (induction es i acc rule: collect_keys.induct) (simp_all add: without_keys_def)

lemma rb_hash_aref_without_keys: "rb_hash_aref (without_keys es) i = rb_hash_aref es i"
  by (induction es i rule: rb_hash_aref.induct) (simp_all add: without_keys_def)

lemma serialize_pairs_without_keys:
  "serialize_pairs tie (without_keys es) ps bytes = serialize_pairs tie es ps bytes"
  by (induction ps arbitrary: bytes) (auto simp: rb_hash_aref_without_keys split: sum.splits)

lemma hash_without_keys:
  "canonical_serialize tie (T_HASH (without_keys es)) bytes = canonical_serialize tie (T_HASH es) bytes"
proof -
  have "length (without_keys es) = length es"
    by (simp add: without_keys_def)
  then show ?thesis
    by (simp add: collect_keys_without_keys serialize_pairs_without_keys split: sum.splits)
qed

lemma hash_keys_unread:
  assumes "map (\<lambda>(k, r, v). (r, v)) es' = map (\<lambda>(k, r, v). (r, v)) es"
  shows "canonical_serialize tie (T_HASH es') bytes = canonical_serialize tie (T_HASH es) bytes"
proof -
  have w: "without_keys xs = map (\<lambda>(r, v). (T_NIL, r, v)) (map (\<lambda>(k, r, v). (r, v)) xs)"
    for xs
    by (simp add: without_keys_def case_prod_beta)
  have "without_keys es' = without_keys es"
    by (simp only: w assms)
  then show ?thesis
    using hash_without_keys [of tie es' bytes] hash_without_keys [of tie es bytes] by simp
qed

text \<open>
  Claim C3. For every hash on which no call into the interpreter raises, and for every
  choice \<^verbatim>\<open>std::sort\<close> makes among equal renderings, the encoding is the tag \<open>h\<close> (0x68),
  the number of entries, and then one slot for each pair of the sorted list, which is a
  permutation of the pairs (rendering, key position) in ascending order of the
  rendering. A slot is the rendering of the key encoded as a String (tag \<open>s\<close>, 0x73, the
  length, the bytes), whatever the key is, followed by the encoding of the value that
  \<^verbatim>\<open>rb_hash_aref\<close> answers for that key object, which is the value of its own entry.
  The key itself is never read: two hashes whose entries agree in renderings and values
  are encoded the same. So a hash with one entry is encoded the same for any key with a
  given rendering; in particular the key \<open>1\<close> (an Integer) and the key \<open>"1"\<close> (a String),
  both rendered \<open>"1"\<close>, give the same bytes.
\<close>

theorem hash_key_slot_is_rendering:
  "(encodable (T_HASH es) \<longrightarrow>
      canonical_serialize tie (T_HASH es) bytes =
        Inr (bytes @ 0x68 # encode_varint (of_nat (length es)) []
          @ concat (map (\<lambda>(key_string, original_key).
              0x73 # encode_varint (of_nat (length key_string)) [] @ key_string
                @ encoding tie (rb_hash_aref es original_key))
            (std_sort tie (rendered_keys es)))))
   \<and> mset (std_sort tie (rendered_keys es)) = mset (rendered_keys es)
   \<and> sorted (map fst (std_sort tie (rendered_keys es)))
   \<and> (\<forall>i < length es. rb_hash_aref es i = snd (snd (es ! i)))
   \<and> (encodable v \<longrightarrow> canonical_serialize tie v bytes = Inr (bytes @ encoding tie v))
   \<and> (map (\<lambda>(k, r, v). (r, v)) es' = map (\<lambda>(k, r, v). (r, v)) es \<longrightarrow>
        canonical_serialize tie (T_HASH es') bytes = canonical_serialize tie (T_HASH es) bytes)
   \<and> canonical_serialize tie (T_HASH [(k, Returns s, v)]) bytes =
       canonical_serialize tie v
         (encode_varint (of_nat (length s)) (bytes @ [0x68, 0x01, 0x73]) @ s)
   \<and> canonical_serialize tie (T_HASH [(T_INTEGER 1, Returns [0x31], v)]) bytes =
       canonical_serialize tie (T_HASH [(T_STRING [0x31], Returns [0x31], v)]) bytes"
proof (intro conjI impI allI)
  assume "encodable (T_HASH es)"
  then show "canonical_serialize tie (T_HASH es) bytes =
        Inr (bytes @ 0x68 # encode_varint (of_nat (length es)) []
          @ concat (map (\<lambda>(key_string, original_key).
              0x73 # encode_varint (of_nat (length key_string)) [] @ key_string
                @ encoding tie (rb_hash_aref es original_key))
            (std_sort tie (rendered_keys es))))"
    by (rule hash_encoding)
next
  show "mset (std_sort tie (rendered_keys es)) = mset (rendered_keys es)"
    by (rule mset_std_sort)
  show "sorted (map fst (std_sort tie (rendered_keys es)))"
    by (rule sorted_std_sort)
next
  fix i
  assume "i < length es"
  then show "rb_hash_aref es i = snd (snd (es ! i))"
    by (rule rb_hash_aref_nth)
next
  assume "encodable v"
  then show "canonical_serialize tie v bytes = Inr (bytes @ encoding tie v)"
    by (rule encodable_encoding)
next
  assume "map (\<lambda>(k, r, v). (r, v)) es' = map (\<lambda>(k, r, v). (r, v)) es"
  then show "canonical_serialize tie (T_HASH es') bytes = canonical_serialize tie (T_HASH es) bytes"
    by (rule hash_keys_unread)
next
  have single: "canonical_serialize tie (T_HASH [(k', Returns s', v)]) bytes =
       canonical_serialize tie v
         (encode_varint (of_nat (length s')) (bytes @ [0x68, 0x01, 0x73]) @ s')"
    for k' s'
    by (simp add: std_sort_def push_string_def encode_varint_small split: sum.splits)
  show "canonical_serialize tie (T_HASH [(k, Returns s, v)]) bytes =
       canonical_serialize tie v
         (encode_varint (of_nat (length s)) (bytes @ [0x68, 0x01, 0x73]) @ s)"
    by (rule single)
  show "canonical_serialize tie (T_HASH [(T_INTEGER 1, Returns [0x31], v)]) bytes =
       canonical_serialize tie (T_HASH [(T_STRING [0x31], Returns [0x31], v)]) bytes"
    by (simp only: single)
qed

theorem hash_key_slot_is_rendering_witness:
  "encodable (T_HASH [(T_SYMBOL [0x62], Returns [0x62], T_INTEGER 2),
       (T_INTEGER 1, Returns [0x31], T_NIL)])
   \<and> canonical_serialize in_order (T_HASH [(T_SYMBOL [0x62], Returns [0x62], T_INTEGER 2),
       (T_INTEGER 1, Returns [0x31], T_NIL)]) []
     = Inr [0x68, 0x02, 0x73, 0x01, 0x31, 0x6e, 0x73, 0x01, 0x62, 0x69, 0x04]
   \<and> encoding in_order (T_INTEGER 2) = [0x69, 0x04]
   \<and> rb_hash_aref [(T_SYMBOL [0x62], Returns [0x62], T_INTEGER 2),
       (T_INTEGER 1, Returns [0x31], T_NIL)] 1 = T_NIL
   \<and> canonical_serialize in_order (T_HASH [(T_FLOAT 0, Returns [0x31], T_NIL)]) []
     = canonical_serialize in_order (T_HASH [(T_INTEGER 1, Returns [0x31], T_NIL)]) []"
proof -
  let ?es = "[(T_SYMBOL [0x62], Returns [0x62], T_INTEGER 2),
       (T_INTEGER 1, Returns [0x31], T_NIL)]"
  note t = hash_key_slot_is_rendering [of ?es in_order "[]" "T_INTEGER 2"
      "[(T_FLOAT 0, Returns [0x31], T_NIL)]"]
  have e: "encodable (T_HASH ?es)"
    by simp
  have i: "encodable (T_INTEGER 2)"
    by simp
  have c: "encoding in_order (T_INTEGER 2) = [0x69, 0x04]"
    using t [THEN conjunct2, THEN conjunct2, THEN conjunct2, THEN conjunct2, THEN conjunct1,
        rule_format, OF i]
    by (simp add: NUM2LL_def zigzag_def word_sle_eq encode_varint_small)
  have n: "encoding in_order T_NIL = [0x6e]"
    by (simp add: encoding_def)
  have r: "std_sort in_order (rendered_keys ?es) = [([0x31], 1), ([0x62], 0)]"
    by (simp add: std_sort_def rendered_keys_def in_order_def)
  have a: "rb_hash_aref ?es 1 = T_NIL"
    using t [THEN conjunct2, THEN conjunct2, THEN conjunct2, THEN conjunct1, rule_format, of 1]
    by simp
  have b: "canonical_serialize in_order (T_HASH ?es) []
     = Inr [0x68, 0x02, 0x73, 0x01, 0x31, 0x6e, 0x73, 0x01, 0x62, 0x69, 0x04]"
    unfolding t [THEN conjunct1, rule_format, OF e] r
    by (simp add: c n encode_varint_small)
  have k: "canonical_serialize in_order (T_HASH [(T_FLOAT 0, Returns [0x31], T_NIL)]) []
     = canonical_serialize in_order (T_HASH [(T_INTEGER 1, Returns [0x31], T_NIL)]) []"
    using hash_key_slot_is_rendering [of "[(T_INTEGER 1, Returns [0x31], T_NIL)]" in_order "[]"
        T_NIL "[(T_FLOAT 0, Returns [0x31], T_NIL)]", THEN conjunct2, THEN conjunct2,
        THEN conjunct2, THEN conjunct2, THEN conjunct2, THEN conjunct1]
    by simp
  from e b c a k show ?thesis
    by (intro conjI)
qed

text \<open>
  Two entry lists with the same entries in another order give the same bytes when every
  rendering is answered and the renderings are pairwise distinct: then the sorted list
  of renderings and values is the same for both, whatever \<^verbatim>\<open>std::sort\<close> does with ties.
\<close>

lemma serialize_pairs_slots:
  "map (\<lambda>(s, i). (s, rb_hash_aref es' i)) ps' = map (\<lambda>(s, i). (s, rb_hash_aref es i)) ps \<Longrightarrow>
   serialize_pairs tie es' ps' bytes = serialize_pairs tie es ps bytes"
proof (induction ps arbitrary: ps' bytes)
  case Nil
  then show ?case
    by simp
next
  case (Cons p ps)
  then obtain p' ps'' where ps': "ps' = p' # ps''"
    by (cases ps') auto
  obtain s i where p: "p = (s, i)"
    by (cases p)
  obtain s' i' where p': "p' = (s', i')"
    by (cases p')
  from Cons.prems have "s' = s" and "rb_hash_aref es' i' = rb_hash_aref es i"
    and "map (\<lambda>(s, i). (s, rb_hash_aref es' i)) ps'' = map (\<lambda>(s, i). (s, rb_hash_aref es i)) ps"
    by (simp_all add: ps' p p')
  then show ?case
    using Cons.IH [of ps''] by (simp del: canonical_serialize.simps add: ps' p p' split: sum.splits)
qed

lemma slots_of_rendered_keys:
  "map (\<lambda>(s, i). (s, rb_hash_aref es i)) (rendered_keys es) = map (\<lambda>(k, r, v). (rendering r, v)) es"
  by (rule nth_equalityI) (simp_all add: rendered_keys_def rb_hash_aref_nth case_prod_beta)

lemma map_fst_rendered:
  "map fst (map (\<lambda>(k, r, v). (rendering r, v)) es) = map (\<lambda>(k, r, v). rendering r) es"
  by (induction es) auto

lemma slots_sorted:
  assumes "distinct (map (\<lambda>(k, r, v). rendering r) es)"
  shows "map (\<lambda>(s, i). (s, rb_hash_aref es i)) (std_sort tie (rendered_keys es))
    = sort_key fst (map (\<lambda>(k, r, v). (rendering r, v)) es)"
proof -
  let ?f = "\<lambda>(s, i). (s, rb_hash_aref es i)"
  let ?rv = "map (\<lambda>(k, r, v). (rendering r, v)) es"
  have "distinct (map fst ?rv)"
    using assms by (simp only: map_fst_rendered)
  then have inj: "inj_on fst (set ?rv)"
    by (simp only: distinct_map)
  have "mset (map ?f (std_sort tie (rendered_keys es))) = mset (map ?f (rendered_keys es))"
    by (simp add: mset_std_sort)
  then have m: "mset ?rv = mset (map ?f (std_sort tie (rendered_keys es)))"
    by (simp only: slots_of_rendered_keys)
  have "map fst (map ?f (std_sort tie (rendered_keys es))) = map fst (std_sort tie (rendered_keys es))"
    by (simp add: case_prod_beta)
  then have s: "sorted (map fst (map ?f (std_sort tie (rendered_keys es))))"
    by (simp only: sorted_std_sort)
  from m inj s have "sort_key fst ?rv = map ?f (std_sort tie (rendered_keys es))"
    by (rule sort_key_inj_key_eq)
  then show ?thesis
    by simp
qed

lemma hash_order_insensitive:
  assumes perm: "mset es' = mset es"
    and ans: "\<forall>(k, r, v) \<in> set es. answered r"
    and rend: "distinct (map (\<lambda>(k, r, v). rendering r) es)"
  shows "canonical_serialize tie (T_HASH es') bytes = canonical_serialize tie (T_HASH es) bytes"
proof -
  let ?rv = "\<lambda>es. map (\<lambda>(k, r, v). (rendering r, v)) es"
  have s: "set es' = set es"
    using perm by (rule mset_eq_setD)
  have l: "length es' = length es"
    using perm by (rule mset_eq_length)
  have ans': "\<forall>(k, r, v) \<in> set es'. answered r"
    using ans s by simp
  have "mset (map (\<lambda>(k, r, v). rendering r) es') = mset (map (\<lambda>(k, r, v). rendering r) es)"
    using perm by simp
  then have rend': "distinct (map (\<lambda>(k, r, v). rendering r) es')"
    using rend by (metis mset_eq_imp_distinct_iff)
  have m: "mset (?rv es') = mset (?rv es)"
    using perm by simp
  have "distinct (map fst (?rv es))"
    using rend by (simp only: map_fst_rendered)
  then have "inj_on fst (set (?rv es))"
    by (simp only: distinct_map)
  then have "inj_on fst (set (?rv es'))"
    using m by (metis mset_eq_setD)
  moreover have "mset (?rv es') = mset (sort_key fst (?rv es))"
    using m by simp
  ultimately have "sort_key fst (?rv es') = sort_key fst (?rv es)"
    by (intro sort_key_inj_key_eq) simp_all
  then have "map (\<lambda>(s, i). (s, rb_hash_aref es' i)) (std_sort tie (rendered_keys es'))
      = map (\<lambda>(s, i). (s, rb_hash_aref es i)) (std_sort tie (rendered_keys es))"
    by (simp only: slots_sorted [OF rend] slots_sorted [OF rend'])
  then have "serialize_pairs tie es' (std_sort tie (rendered_keys es')) b
      = serialize_pairs tie es (std_sort tie (rendered_keys es)) b" for b
    by (rule serialize_pairs_slots)
  then show ?thesis
    using collect_keys_rendered [OF ans] collect_keys_rendered [OF ans'] l
    by simp
qed

lemma hash_order_insensitive_example:
  "canonical_serialize tie (T_HASH [(T_SYMBOL [0x62], Returns [0x62], T_INTEGER 2),
       (T_SYMBOL [0x61], Returns [0x61], T_INTEGER 1)]) []
   = canonical_serialize tie (T_HASH [(T_SYMBOL [0x61], Returns [0x61], T_INTEGER 1),
       (T_SYMBOL [0x62], Returns [0x62], T_INTEGER 2)]) []"
  by (rule hash_order_insensitive) simp_all

text \<open>
  Claim C2 at two keys with one rendering. The hash \<open>{1 => nil, "1" => true}\<close> and the
  hash \<open>{"1" => true, 1 => nil}\<close> hold the same two entries, inserted in the two possible
  orders. The keys \<open>1\<close> and \<open>"1"\<close> are both rendered \<open>"1"\<close>, so both hashes hand the same
  two equivalent pairs to \<^verbatim>\<open>std::sort\<close>, which returns them in the same order of key
  positions for both, whichever that is. The values then come out in opposite orders:
  one hash is encoded as \<open>h 2 s 1 "1" n s 1 "1" t\<close> and the other as
  \<open>h 2 s 1 "1" t s 1 "1" n\<close>, and their seeds differ. With the pairs left in input
  order, as an insertion sort leaves them, the seeds are 832552941 and 2010654149.
\<close>

lemma std_sort_tied_pair:
  "std_sort tie [(s, 0), (s, Suc 0)] =
     (if tie [(s, 0), (s, Suc 0)] (s, 0) \<le> tie [(s, 0), (s, Suc 0)] (s, Suc 0)
      then [(s, 0), (s, Suc 0)] else [(s, Suc 0), (s, 0)])"
  by (simp add: std_sort_def)

theorem hash_order_matters_on_equal_renderings:
  "to_seed_int in_order (T_HASH [(T_INTEGER 1, Returns [0x31], T_NIL),
       (T_STRING [0x31], Returns [0x31], T_TRUE)]) = Inr 832552941
   \<and> to_seed_int in_order (T_HASH [(T_STRING [0x31], Returns [0x31], T_TRUE),
       (T_INTEGER 1, Returns [0x31], T_NIL)]) = Inr 2010654149
   \<and> to_seed_int tie (T_HASH [(T_INTEGER 1, Returns [0x31], T_NIL),
       (T_STRING [0x31], Returns [0x31], T_TRUE)])
     \<noteq> to_seed_int tie (T_HASH [(T_STRING [0x31], Returns [0x31], T_TRUE),
       (T_INTEGER 1, Returns [0x31], T_NIL)])
   \<and> (to_seed_int tie (T_HASH [(T_INTEGER 1, Returns [0x31], T_NIL),
          (T_STRING [0x31], Returns [0x31], T_TRUE)]) = Inr 832552941
        \<and> to_seed_int tie (T_HASH [(T_STRING [0x31], Returns [0x31], T_TRUE),
          (T_INTEGER 1, Returns [0x31], T_NIL)]) = Inr 2010654149
      \<or> to_seed_int tie (T_HASH [(T_INTEGER 1, Returns [0x31], T_NIL),
          (T_STRING [0x31], Returns [0x31], T_TRUE)]) = Inr 2010654149
        \<and> to_seed_int tie (T_HASH [(T_STRING [0x31], Returns [0x31], T_TRUE),
          (T_INTEGER 1, Returns [0x31], T_NIL)]) = Inr 832552941)"
proof -
  let ?A = "T_HASH [(T_INTEGER 1, Returns [0x31], T_NIL), (T_STRING [0x31], Returns [0x31], T_TRUE)]"
  let ?B = "T_HASH [(T_STRING [0x31], Returns [0x31], T_TRUE), (T_INTEGER 1, Returns [0x31], T_NIL)]"
  let ?nt = "[0x68, 0x02, 0x73, 0x01, 0x31, 0x6e, 0x73, 0x01, 0x31, 0x74] :: byte list"
  let ?tn = "[0x68, 0x02, 0x73, 0x01, 0x31, 0x74, 0x73, 0x01, 0x31, 0x6e] :: byte list"
  have nt: "fold_seed (fnv1a_loop ?nt FNV_OFFSET) = 832552941"
    by code_simp
  have tn: "fold_seed (fnv1a_loop ?tn FNV_OFFSET) = 2010654149"
    by code_simp
  have a: "to_seed_int in_order ?A = Inr 832552941"
    by code_simp
  have b: "to_seed_int in_order ?B = Inr 2010654149"
    by code_simp
  have unstable: "canonical_serialize t ?A [] = Inr ?nt \<and> canonical_serialize t ?B [] = Inr ?tn
      \<or> canonical_serialize t ?A [] = Inr ?tn \<and> canonical_serialize t ?B [] = Inr ?nt" for t
    by (simp add: std_sort_tied_pair push_string_def encode_varint_small)
  have seed: "to_seed_int tie v = Inr (fold_seed (fnv1a_loop bs FNV_OFFSET))"
    if "canonical_serialize tie v [] = Inr bs" for v bs
    using that by (simp add: to_seed_int_def)
  from unstable [of tie]
  have c: "to_seed_int tie ?A = Inr 832552941 \<and> to_seed_int tie ?B = Inr 2010654149
      \<or> to_seed_int tie ?A = Inr 2010654149 \<and> to_seed_int tie ?B = Inr 832552941"
  proof (elim disjE conjE)
    assume x: "canonical_serialize tie ?A [] = Inr ?nt"
      and y: "canonical_serialize tie ?B [] = Inr ?tn"
    have "to_seed_int tie ?A = Inr 832552941"
      using seed [OF x] by (simp only: nt)
    moreover have "to_seed_int tie ?B = Inr 2010654149"
      using seed [OF y] by (simp only: tn)
    ultimately show ?thesis
      by (intro disjI1 conjI)
  next
    assume x: "canonical_serialize tie ?A [] = Inr ?tn"
      and y: "canonical_serialize tie ?B [] = Inr ?nt"
    have "to_seed_int tie ?A = Inr 2010654149"
      using seed [OF x] by (simp only: tn)
    moreover have "to_seed_int tie ?B = Inr 832552941"
      using seed [OF y] by (simp only: nt)
    ultimately show ?thesis
      by (intro disjI2 conjI)
  qed
  then have d: "to_seed_int tie ?A \<noteq> to_seed_int tie ?B"
    by auto
  from a b c d show ?thesis
    by (intro conjI)
qed

section \<open>Failures of the interpreter\<close>












end
